theory Spec2Isabelle
  imports Main "HOL-Library.Sublist"
begin

section \<open>JavaScript values\<close>

text \<open>
  The hooks only ever do three things with a value: test it for truthiness (\<open>!v\<close>),
  compare it by identity (\<open>!==\<close>, and \<open>Object.is\<close> on hook dependencies), and pass it on.
  An object or a function is therefore its reference. Numbers are the integers: the two
  doubles on which \<open>===\<close> and \<open>Object.is\<close> disagree (NaN and the negative zero) are not
  values of the model, so both comparisons are equality of \<open>jsval\<close>.
\<close>

type_synonym ref = nat
type_synonym fid = nat

datatype jsval = JUndefined | JNull | JBool bool | JNum int | JStr string | JObj ref

fun truthy :: "jsval \<Rightarrow> bool" where
  "truthy JUndefined = False"
| "truthy JNull = False"
| "truthy (JBool b) = b"
| "truthy (JNum n) = (n \<noteq> 0)"
| "truthy (JStr s) = (s \<noteq> [])"
| "truthy (JObj r) = True"

datatype error = TypeError | UsageError

section \<open>Objects read through the context\<close>

text \<open>
  \<open>interface SmartContext { subscribe: Function; getState: Function }\<close>, extended by
  the mutators: an object is its \<open>getState\<close> property, its \<open>subscribe\<close> property and its
  other properties by name. \<open>StateGetter\<close> is the closure \<open>() => storeRef.current\<close> and
  \<open>SubscribeFn\<close> the closure \<open>(cb) => { ... }\<close> that \<open>useSmartContext\<close> builds;
  \<open>Thunk v\<close> is any other function that returns \<open>v\<close> when called with no argument.
\<close>

datatype getter = StateGetter | Thunk jsval

datatype registrar = SubscribeFn

record obj =
  getState_m :: "getter option"
  subscribe_m :: "registrar option"
  rest_m :: "string \<rightharpoonup> jsval"

text \<open>
  The object literal \<open>{ ...setters, subscribe: ..., getState: ... }\<close>: the spread copies
  the mutators, and the two properties written after it replace a mutator of the same name.
\<close>

definition published :: "(string \<rightharpoonup> jsval) \<Rightarrow> obj" where
  "published setters =
     \<lparr> getState_m = Some StateGetter,
       subscribe_m = Some SubscribeFn,
       rest_m = setters |` (- {''getState'', ''subscribe''}) \<rparr>"

section \<open>The state of one provider: hook cells, heap, consumers, trace\<close>

datatype prev = Fresh | Prev jsval

datatype event =
    Invoked fid
  | Observed fid jsval
  | Subscribed fid
  | Unsubscribed fid

text \<open>
  \<open>prevStateRef\<close>, \<open>storeRef\<close> and \<open>subscribersRef\<close> are the three \<open>useRef\<close> cells,
  \<open>effectDeps\<close> the dependency array \<open>[state]\<close> of the last committed layout effect,
  \<open>valueMemo\<close> the cell of \<open>useMemo(..., [])\<close>. \<open>Fresh\<close> is the object \<open>{}\<close> that
  \<open>useRef({})\<close> allocates: no caller holds it, so it differs from every \<open>state\<close>.
  \<open>subscribersRef\<close> holds the address of an array in \<open>arrays\<close>, since \<open>push\<close> updates
  the array in place while \<open>filter\<close> allocates another one. \<open>client\<close> is the state of
  the code that registers listeners, and \<open>trace\<close> records what listeners did.
\<close>

record 'c world =
  hooksInit :: bool
  prevStateRef :: prev
  storeRef :: jsval
  subscribersRef :: ref
  effectDeps :: "jsval option"
  valueMemo :: ref
  arrays :: "ref \<Rightarrow> fid list"
  nextArr :: ref
  objs :: "ref \<rightharpoonup> obj"
  nextObj :: ref
  client :: 'c
  trace :: "event list"

definition empty_world :: "'c \<Rightarrow> 'c world" where
  "empty_world c =
     \<lparr> hooksInit = False, prevStateRef = Fresh, storeRef = JUndefined, subscribersRef = 0,
       effectDeps = None, valueMemo = 0, arrays = (\<lambda>_. []), nextArr = 0,
       objs = Map.empty, nextObj = 0, client = c, trace = [] \<rparr>"

definition registry :: "'c world \<Rightarrow> fid list" where
  "registry w = arrays w (subscribersRef w)"

section \<open>The two control functions of the published value\<close>

definition getState :: "'c world \<Rightarrow> jsval" where
  "getState w = storeRef w"

text \<open>\<open>subscribersRef.current.push(cb)\<close>: the current array grows in place.\<close>

definition subscribe :: "fid \<Rightarrow> 'c world \<Rightarrow> 'c world" where
  "subscribe cb w =
     w\<lparr>arrays := (arrays w)(subscribersRef w := arrays w (subscribersRef w) @ [cb])\<rparr>"

text \<open>
  The function that \<open>subscribe(cb)\<close> returns. It captures \<open>cb\<close> only:
  \<open>subscribersRef.current = subscribersRef.current.filter((sub) => sub !== cb)\<close>
  writes a new array and leaves the old one as it was.
\<close>

definition unsubscribe :: "fid \<Rightarrow> 'c world \<Rightarrow> 'c world" where
  "unsubscribe cb w =
     w\<lparr>arrays := (arrays w)(nextArr w := filter (\<lambda>sub. sub \<noteq> cb) (arrays w (subscribersRef w))),
       subscribersRef := nextArr w,
       nextArr := nextArr w + 1\<rparr>"

section \<open>Listeners\<close>

text \<open>
  A listener is a function of no arguments, known by its identity. What it does when
  called is a program over the published value: it may read the state, register or
  remove listeners, and read or change the state of its own side. A listener returns
  normally; one that throws is outside the model.
\<close>

datatype 'c prog =
    Return
  | GetState "jsval \<Rightarrow> 'c prog"
  | Subscribe fid "'c prog"
  | Unsubscribe fid "'c prog"
  | Inspect "'c \<Rightarrow> 'c prog"
  | Modify "'c \<Rightarrow> 'c" "'c prog"

primrec exec :: "'c prog \<Rightarrow> fid \<Rightarrow> 'c world \<Rightarrow> 'c world" where
  "exec Return f w = w"
| "exec (GetState k) f w =
     exec (k (getState w)) f (w\<lparr>trace := trace w @ [Observed f (getState w)]\<rparr>)"
| "exec (Subscribe cb p) f w =
     exec p f (subscribe cb (w\<lparr>trace := trace w @ [Subscribed cb]\<rparr>))"
| "exec (Unsubscribe cb p) f w =
     exec p f (unsubscribe cb (w\<lparr>trace := trace w @ [Unsubscribed cb]\<rparr>))"
| "exec (Inspect k) f w = exec (k (client w)) f w"
| "exec (Modify u p) f w = exec p f (w\<lparr>client := u (client w)\<rparr>)"

text \<open>\<open>sub()\<close>: the call of one listener.\<close>

definition call :: "(fid \<Rightarrow> 'c prog) \<Rightarrow> fid \<Rightarrow> 'c world \<Rightarrow> 'c world" where
  "call env f w = exec (env f) f (w\<lparr>trace := trace w @ [Invoked f]\<rparr>)"

text \<open>
  \<open>subscribersRef.current.forEach((sub) => sub())\<close>. \<open>forEach\<close> reads the array object
  and its length once, then visits the indices below that length in order, reading each
  element from the array at the time of the visit, if the index is still present.
\<close>

definition visit :: "(fid \<Rightarrow> 'c prog) \<Rightarrow> ref \<Rightarrow> nat \<Rightarrow> 'c world \<Rightarrow> 'c world" where
  "visit env a k w = (if k < length (arrays w a) then call env (arrays w a ! k) w else w)"

definition forEach :: "(fid \<Rightarrow> 'c prog) \<Rightarrow> 'c world \<Rightarrow> 'c world" where
  "forEach env w =
     (let a = subscribersRef w; len = length (arrays w a)
      in fold (visit env a) [0..<len] w)"

section \<open>useSmartContext\<close>

text \<open>
  One call of the hook, that is one render of the provider. The first call creates the
  cells; every later call finds them and only runs \<open>storeRef.current = state\<close>. The
  factory of \<open>useMemo(..., [])\<close> runs in the first call only, with the \<open>setters\<close> of that call.
\<close>

definition useSmartContext ::
  "jsval \<Rightarrow> (string \<rightharpoonup> jsval) \<Rightarrow> 'c world \<Rightarrow> jsval \<times> 'c world" where
  "useSmartContext state setters w =
     (if hooksInit w then (JObj (valueMemo w), w\<lparr>storeRef := state\<rparr>)
      else (JObj (nextObj w),
            w\<lparr>hooksInit := True,
              prevStateRef := Fresh,
              storeRef := state,
              subscribersRef := nextArr w,
              arrays := (arrays w)(nextArr w := []),
              nextArr := nextArr w + 1,
              valueMemo := nextObj w,
              objs := (objs w)(nextObj w \<mapsto> published setters),
              nextObj := nextObj w + 1\<rparr>))"

text \<open>The body of the layout effect.\<close>

definition layoutEffect :: "(fid \<Rightarrow> 'c prog) \<Rightarrow> jsval \<Rightarrow> 'c world \<Rightarrow> 'c world" where
  "layoutEffect env state w =
     (if prevStateRef w \<noteq> Prev state
      then (forEach env w)\<lparr>prevStateRef := Prev state\<rparr>
      else w)"

text \<open>
  \<open>useLayoutEffect(..., [state])\<close> at commit: the effect runs after the first render and
  after every render whose \<open>state\<close> is not the one of the render before.
\<close>

definition commit :: "(fid \<Rightarrow> 'c prog) \<Rightarrow> jsval \<Rightarrow> 'c world \<Rightarrow> 'c world" where
  "commit env state w =
     (if effectDeps w = Some state then w else layoutEffect env state w)
       \<lparr>effectDeps := Some state\<rparr>"

text \<open>A render of the provider followed by its commit.\<close>

definition rerender ::
  "(fid \<Rightarrow> 'c prog) \<Rightarrow> jsval \<Rightarrow> (string \<rightharpoonup> jsval) \<Rightarrow> 'c world \<Rightarrow> 'c world" where
  "rerender env state setters w = commit env state (snd (useSmartContext state setters w))"

text \<open>
  The provider over its lifetime: one render and commit per pair of arguments, with the
  value that each call of the hook returned.
\<close>

fun renders ::
  "(fid \<Rightarrow> 'c prog) \<Rightarrow> (jsval \<times> (string \<rightharpoonup> jsval)) list \<Rightarrow> 'c world \<Rightarrow> jsval list \<times> 'c world" where
  "renders env [] w = ([], w)"
| "renders env ((state, setters) # us) w =
     (let (v, w1) = useSmartContext state setters w;
          (vs, w2) = renders env us (commit env state w1)
      in (v # vs, w2))"

section \<open>Reading the published value\<close>

text \<open>
  \<open>store.getState()\<close> on whatever \<open>React.useContext\<close> returned. Reading a property of
  \<open>undefined\<close> or \<open>null\<close>, and calling a property that is absent, raise a TypeError; an
  object that the heap does not describe has no properties.
\<close>

definition call_getState :: "'c world \<Rightarrow> jsval \<Rightarrow> error + jsval" where
  "call_getState w store =
     (case store of
        JObj r \<Rightarrow>
          (case objs w r of
             None \<Rightarrow> Inl TypeError
           | Some ob \<Rightarrow>
               (case getState_m ob of
                  None \<Rightarrow> Inl TypeError
                | Some StateGetter \<Rightarrow> Inr (getState w)
                | Some (Thunk v) \<Rightarrow> Inr v))
      | _ \<Rightarrow> Inl TypeError)"

definition getState_absent :: "'c world \<Rightarrow> jsval \<Rightarrow> bool" where
  "getState_absent w store =
     (case store of
        JObj r \<Rightarrow> (case objs w r of None \<Rightarrow> True | Some ob \<Rightarrow> getState_m ob = None)
      | _ \<Rightarrow> True)"

text \<open>The properties of \<open>store\<close> that \<open>const { getState, subscribe, ...rest } = store\<close> leaves in \<open>rest\<close>.\<close>

definition rest_of :: "'c world \<Rightarrow> jsval \<Rightarrow> obj" where
  "rest_of w store =
     \<lparr> getState_m = None, subscribe_m = None,
       rest_m = (case store of
                   JObj r \<Rightarrow> (case objs w r of None \<Rightarrow> Map.empty | Some ob \<Rightarrow> rest_m ob)
                 | _ \<Rightarrow> Map.empty) \<rparr>"

section \<open>useContextSelector\<close>

text \<open>
  The cells of one consumer: the two \<open>useRef\<close> cells and the number of times
  \<open>forceRender\<close> was dispatched. A selector is a function of the state that returns, so
  the two evaluations of \<open>selector(store.getState())\<close> in one run are one value.
\<close>

record sub =
  selectorRef :: "jsval \<Rightarrow> jsval"
  selectedStateRef :: jsval
  forceRenders :: nat

definition forceRender :: "sub \<Rightarrow> sub" where
  "forceRender sb = sb\<lparr>forceRenders := forceRenders sb + 1\<rparr>"

definition useContextSelector ::
  "jsval \<Rightarrow> (jsval \<Rightarrow> jsval) \<Rightarrow> 'c world \<Rightarrow> sub \<Rightarrow> error + (jsval \<times> sub)" where
  "useContextSelector store selector w sb =
     (case call_getState w store of
        Inl e \<Rightarrow> Inl e
      | Inr v \<Rightarrow>
          if \<not> truthy v then Inl UsageError
          else (case call_getState w store of
                  Inl e \<Rightarrow> Inl e
                | Inr v' \<Rightarrow>
                    Inr (selector v', sb\<lparr>selectorRef := selector, selectedStateRef := selector v'\<rparr>)))"

text \<open>
  \<open>checkForUpdates\<close>, given what \<open>store.getState()\<close> returned, on the cells of its consumer.
\<close>

definition checkForUpdates_body :: "jsval \<Rightarrow> sub \<Rightarrow> sub" where
  "checkForUpdates_body current sb =
     (let newState = selectorRef sb current
      in if newState \<noteq> selectedStateRef sb then forceRender sb else sb)"

text \<open>
  The listener of consumer \<open>i\<close>, whose cells are \<open>client w i\<close>; its identity is \<open>i\<close>
  (\<open>useCallback(..., [store])\<close> keeps one function while the store is the same).
\<close>

definition checkForUpdates :: "fid \<Rightarrow> (fid \<Rightarrow> sub) prog" where
  "checkForUpdates i =
     GetState (\<lambda>current. Modify (\<lambda>c. c(i := checkForUpdates_body current (c i))) Return)"

section \<open>useContextSetters\<close>

text \<open>
  The cell of \<open>useMemo(..., [store])\<close> holds the dependency of the last computation and
  the object it returned; the factory runs again when the dependency is another value.
\<close>

type_synonym memo = "(jsval \<times> ref) option"

definition useContextSetters ::
  "jsval \<Rightarrow> memo \<Rightarrow> 'c world \<Rightarrow> error + (jsval \<times> memo \<times> 'c world)" where
  "useContextSetters store cell w =
     (case call_getState w store of
        Inl e \<Rightarrow> Inl e
      | Inr v \<Rightarrow>
          if \<not> truthy v then Inl UsageError
          else (case cell of
                  Some (dep, r) \<Rightarrow>
                    if dep = store then Inr (JObj r, cell, w)
                    else Inr (JObj (nextObj w), Some (store, nextObj w),
                              w\<lparr>objs := (objs w)(nextObj w \<mapsto> rest_of w store),
                                nextObj := nextObj w + 1\<rparr>)
                | None \<Rightarrow>
                    Inr (JObj (nextObj w), Some (store, nextObj w),
                         w\<lparr>objs := (objs w)(nextObj w \<mapsto> rest_of w store),
                           nextObj := nextObj w + 1\<rparr>)))"

section \<open>Reading a trace\<close>

fun invoked :: "event list \<Rightarrow> fid list" where
  "invoked [] = []"
| "invoked (Invoked f # es) = f # invoked es"
| "invoked (_ # es) = invoked es"

fun observed :: "event list \<Rightarrow> jsval list" where
  "observed [] = []"
| "observed (Observed f v # es) = v # observed es"
| "observed (_ # es) = observed es"

text \<open>What a registration or a removal does to a registry seen as a list.\<close>

fun replay1 :: "event \<Rightarrow> fid list \<Rightarrow> fid list" where
  "replay1 (Subscribed cb) xs = xs @ [cb]"
| "replay1 (Unsubscribed cb) xs = filter (\<lambda>sub. sub \<noteq> cb) xs"
| "replay1 _ xs = xs"

definition replay :: "event list \<Rightarrow> fid list \<Rightarrow> fid list" where
  "replay evs xs = fold replay1 evs xs"

section \<open>Invariants\<close>

text \<open>
  During a pass over the array at \<open>a\<close>, which held \<open>xs\<close> when the pass began: the array
  is allocated, so is the current one, and \<open>xs\<close> is still the beginning of the array.
\<close>

definition pass_inv :: "ref \<Rightarrow> fid list \<Rightarrow> 'c world \<Rightarrow> bool" where
  "pass_inv a xs w \<longleftrightarrow> a < nextArr w \<and> subscribersRef w < nextArr w \<and> prefix xs (arrays w a)"

text \<open>The cells that only the hooks write.\<close>

definition same_cells :: "'c world \<Rightarrow> 'c world \<Rightarrow> bool" where
  "same_cells w w' \<longleftrightarrow>
     hooksInit w' = hooksInit w \<and> prevStateRef w' = prevStateRef w \<and> storeRef w' = storeRef w \<and>
     effectDeps w' = effectDeps w \<and> valueMemo w' = valueMemo w \<and> objs w' = objs w \<and>
     nextObj w' = nextObj w"

text \<open>
  A provider that has rendered: the cells exist, the current array is allocated, and
  \<open>prevStateRef\<close> holds the state of the last commit, if there was one.
\<close>

definition pub_inv :: "'c world \<Rightarrow> bool" where
  "pub_inv w \<longleftrightarrow>
     hooksInit w \<and> subscribersRef w < nextArr w \<and>
     (case effectDeps w of None \<Rightarrow> True | Some s \<Rightarrow> prevStateRef w = Prev s)"

text \<open>Before the first render: no cell exists and nothing was committed.\<close>

definition unmounted :: "'c world \<Rightarrow> bool" where
  "unmounted w \<longleftrightarrow> \<not> hooksInit w \<and> effectDeps w = None"

section \<open>Consumers seen from the provider\<close>

text \<open>
  \<open>store.subscribe(checkForUpdates)\<close> on whatever \<open>React.useContext\<close> returned: the call
  of an absent \<open>subscribe\<close> raises a TypeError and registers nothing.
\<close>

definition call_subscribe :: "'c world \<Rightarrow> jsval \<Rightarrow> fid \<Rightarrow> error + 'c world" where
  "call_subscribe w store cb =
     (case store of
        JObj r \<Rightarrow>
          (case objs w r of
             None \<Rightarrow> Inl TypeError
           | Some ob \<Rightarrow>
               (case subscribe_m ob of
                  None \<Rightarrow> Inl TypeError
                | Some SubscribeFn \<Rightarrow> Inr (subscribe cb w)))
      | _ \<Rightarrow> Inl TypeError)"

text \<open>One run of consumer \<open>i\<close>, which writes its cells unless the hook throws.\<close>

definition renderSelector ::
  "fid \<Rightarrow> jsval \<Rightarrow> (jsval \<Rightarrow> jsval) \<Rightarrow> (fid \<Rightarrow> sub) world \<Rightarrow> error + (fid \<Rightarrow> sub) world" where
  "renderSelector i store selector w =
     (case useContextSelector store selector w (client w i) of
        Inl e \<Rightarrow> Inl e
      | Inr (v, sb) \<Rightarrow> Inr (w\<lparr>client := (client w)(i := sb)\<rparr>))"

text \<open>
  The first run of a consumer followed by its effect, which registers its listener
  with \<open>store.subscribe(checkForUpdates)\<close>.
\<close>

definition mountSelector ::
  "fid \<Rightarrow> jsval \<Rightarrow> (jsval \<Rightarrow> jsval) \<Rightarrow> (fid \<Rightarrow> sub) world \<Rightarrow> error + (fid \<Rightarrow> sub) world" where
  "mountSelector i store selector w =
     (case renderSelector i store selector w of
        Inl e \<Rightarrow> Inl e
      | Inr w' \<Rightarrow> call_subscribe w' store i)"

text \<open>What one pass of \<open>checkForUpdates\<close> listeners does to the cells of the consumers.\<close>

definition check_all :: "jsval \<Rightarrow> fid list \<Rightarrow> (fid \<Rightarrow> sub) \<Rightarrow> (fid \<Rightarrow> sub)" where
  "check_all current fs c = fold (\<lambda>f c'. c'(f := checkForUpdates_body current (c' f))) fs c"


section \<open>Concrete providers and consumers\<close>

text \<open>A listener that reads the state, and one that removes listener 2 when it is listener 1.\<close>

definition reader :: "fid \<Rightarrow> unit prog" where
  "reader f = GetState (\<lambda>current. Return)"


text \<open>A provider that has rendered and committed once with the given state and mutators.\<close>

definition provider :: "jsval \<Rightarrow> (string \<rightharpoonup> jsval) \<Rightarrow> unit world" where
  "provider state setters = rerender reader state setters (empty_world ())"

definition two_listeners :: "unit world" where
  "two_listeners = subscribe 2 (subscribe 1 (provider (JObj 10) Map.empty))"

definition clash_setters :: "string \<rightharpoonup> jsval" where
  "clash_setters = [''subscribe'' \<mapsto> JObj 5, ''setCount'' \<mapsto> JObj 6]"

text \<open>
  \<open>(state) => state.count\<close> on three states: the object at 10 is \<open>{count: 0}\<close>, the one
  at 11 is \<open>{count: 1}\<close>, the one at 12 is \<open>{count: 0, unrelated: true}\<close>.
\<close>

definition selectCount :: "jsval \<Rightarrow> jsval" where
  "selectCount s =
     (if s = JObj 11 then JNum 1
      else if s = JObj 10 \<or> s = JObj 12 then JNum 0
      else JUndefined)"

definition no_sub :: sub where
  "no_sub = \<lparr> selectorRef = (\<lambda>s. JUndefined), selectedStateRef = JUndefined, forceRenders = 0 \<rparr>"

text \<open>A provider with the state at 10, before any consumer has run.\<close>

definition provider0 :: "(fid \<Rightarrow> sub) world" where
  "provider0 = rerender checkForUpdates (JObj 10) Map.empty (empty_world (\<lambda>i. no_sub))"

text \<open>That provider with one consumer, number 0, that selects the count.\<close>

definition consumer0 :: "(fid \<Rightarrow> sub) world" where
  "consumer0 =
     (case mountSelector 0 (JObj 0) selectCount provider0 of
        Inl e \<Rightarrow> provider0
      | Inr w \<Rightarrow> w)"



section \<open>Traces and passes\<close>

lemma invoked_append: "invoked (xs @ ys) = invoked xs @ invoked ys"
  by (induction xs rule: invoked.induct) simp_all

lemma observed_append: "observed (xs @ ys) = observed xs @ observed ys"
  by (induction xs rule: observed.induct) simp_all

lemma replay_append: "replay (xs @ ys) zs = replay ys (replay xs zs)"
  by (simp add: replay_def)

lemma subscribe_pass_inv: "pass_inv a xs w \<Longrightarrow> pass_inv a xs (subscribe cb w)"
  by (auto simp: pass_inv_def subscribe_def)

lemma unsubscribe_pass_inv: "pass_inv a xs w \<Longrightarrow> pass_inv a xs (unsubscribe cb w)"
  by (auto simp: pass_inv_def unsubscribe_def)

lemma exec_pass_inv: "pass_inv a xs w \<Longrightarrow> pass_inv a xs (exec p f w)"
proof (induction p arbitrary: w)
  case (Subscribe cb p)
  have "pass_inv a xs (w\<lparr>trace := trace w @ [Subscribed cb]\<rparr>)"
    using Subscribe.prems by (simp add: pass_inv_def)
  then have "pass_inv a xs (subscribe cb (w\<lparr>trace := trace w @ [Subscribed cb]\<rparr>))"
    by (rule subscribe_pass_inv)
  then show ?case by (simp add: Subscribe.IH)
next
  case (Unsubscribe cb p)
  have "pass_inv a xs (w\<lparr>trace := trace w @ [Unsubscribed cb]\<rparr>)"
    using Unsubscribe.prems by (simp add: pass_inv_def)
  then have "pass_inv a xs (unsubscribe cb (w\<lparr>trace := trace w @ [Unsubscribed cb]\<rparr>))"
    by (rule unsubscribe_pass_inv)
  then show ?case by (simp add: Unsubscribe.IH)
qed (simp_all add: pass_inv_def)

lemma exec_same_cells: "same_cells w (exec p f w)"
proof (induction p arbitrary: w)
  case (GetState k)
  have "same_cells (w\<lparr>trace := trace w @ [Observed f (getState w)]\<rparr>) (exec (k (getState w)) f (w\<lparr>trace := trace w @ [Observed f (getState w)]\<rparr>))"
    using GetState.IH by blast
  then show ?case by (simp add: same_cells_def)
next
  case (Subscribe cb p)
  have "same_cells (subscribe cb (w\<lparr>trace := trace w @ [Subscribed cb]\<rparr>)) (exec p f (subscribe cb (w\<lparr>trace := trace w @ [Subscribed cb]\<rparr>)))"
    using Subscribe.IH by blast
  then show ?case by (simp add: same_cells_def subscribe_def)
next
  case (Unsubscribe cb p)
  have "same_cells (unsubscribe cb (w\<lparr>trace := trace w @ [Unsubscribed cb]\<rparr>)) (exec p f (unsubscribe cb (w\<lparr>trace := trace w @ [Unsubscribed cb]\<rparr>)))"
    using Unsubscribe.IH by blast
  then show ?case by (simp add: same_cells_def unsubscribe_def)
next
  case (Modify u p)
  have "same_cells (w\<lparr>client := u (client w)\<rparr>) (exec p f (w\<lparr>client := u (client w)\<rparr>))"
    using Modify.IH by blast
  then show ?case by (simp add: same_cells_def)
qed (simp_all add: same_cells_def)


lemma exec_events:
  "\<exists>evs. trace (exec p f w) = trace w @ evs \<and> invoked evs = [] \<and>
         set (observed evs) \<subseteq> {storeRef w} \<and>
         registry (exec p f w) = replay evs (registry w)"
proof (induction p arbitrary: w)
  case Return
  show ?case by (simp add: replay_def)
next
  case (GetState k)
  let ?w = "w\<lparr>trace := trace w @ [Observed f (getState w)]\<rparr>"
  obtain evs where e: "trace (exec (k (getState w)) f ?w) = trace ?w @ evs" "invoked evs = []"
    "set (observed evs) \<subseteq> {storeRef ?w}" "registry (exec (k (getState w)) f ?w) = replay evs (registry ?w)"
    using GetState.IH by blast
  show ?case
    apply (rule exI[of _ "Observed f (getState w) # evs"])
    using e by (simp add: getState_def replay_def registry_def)
next
  case (Subscribe cb p)
  let ?w = "subscribe cb (w\<lparr>trace := trace w @ [Subscribed cb]\<rparr>)"
  obtain evs where e: "trace (exec p f ?w) = trace ?w @ evs" "invoked evs = []"
    "set (observed evs) \<subseteq> {storeRef ?w}" "registry (exec p f ?w) = replay evs (registry ?w)"
    using Subscribe.IH by blast
  show ?case
    apply (rule exI[of _ "Subscribed cb # evs"])
    using e by (simp add: subscribe_def replay_def registry_def)
next
  case (Unsubscribe cb p)
  let ?w = "unsubscribe cb (w\<lparr>trace := trace w @ [Unsubscribed cb]\<rparr>)"
  obtain evs where e: "trace (exec p f ?w) = trace ?w @ evs" "invoked evs = []"
    "set (observed evs) \<subseteq> {storeRef ?w}" "registry (exec p f ?w) = replay evs (registry ?w)"
    using Unsubscribe.IH by blast
  show ?case
    apply (rule exI[of _ "Unsubscribed cb # evs"])
    using e by (simp add: unsubscribe_def replay_def registry_def)
next
  case (Inspect k)
  show ?case using Inspect.IH by simp
next
  case (Modify u p)
  let ?w = "w\<lparr>client := u (client w)\<rparr>"
  obtain evs where e: "trace (exec p f ?w) = trace ?w @ evs" "invoked evs = []"
    "set (observed evs) \<subseteq> {storeRef ?w}" "registry (exec p f ?w) = replay evs (registry ?w)"
    using Modify.IH by blast
  show ?case
    apply (rule exI[of _ evs])
    using e by (simp add: registry_def)
qed


lemma same_cells_trans: "same_cells w w' \<Longrightarrow> same_cells w' w'' \<Longrightarrow> same_cells w w''"
  by (simp add: same_cells_def)

lemma call_pass_inv: "pass_inv a xs w \<Longrightarrow> pass_inv a xs (call env f w)"
proof -
  assume "pass_inv a xs w"
  then have "pass_inv a xs (w\<lparr>trace := trace w @ [Invoked f]\<rparr>)" by (simp add: pass_inv_def)
  then show ?thesis unfolding call_def by (rule exec_pass_inv)
qed

lemma call_same_cells: "same_cells w (call env f w)"
proof -
  have "same_cells (w\<lparr>trace := trace w @ [Invoked f]\<rparr>) (call env f w)"
    unfolding call_def by (rule exec_same_cells)
  then show ?thesis by (simp add: same_cells_def)
qed

lemma call_events:
  "\<exists>evs. trace (call env f w) = trace w @ evs \<and> invoked evs = [f] \<and>
         set (observed evs) \<subseteq> {storeRef w} \<and>
         registry (call env f w) = replay evs (registry w)"
proof -
  let ?w = "w\<lparr>trace := trace w @ [Invoked f]\<rparr>"
  obtain evs where e: "trace (exec (env f) f ?w) = trace ?w @ evs" "invoked evs = []"
    "set (observed evs) \<subseteq> {storeRef ?w}" "registry (exec (env f) f ?w) = replay evs (registry ?w)"
    using exec_events by blast
  show ?thesis
    apply (rule exI[of _ "Invoked f # evs"])
    using e by (simp add: call_def replay_def registry_def)
qed

lemma visits_events:
  assumes "pass_inv a xs w" and "\<forall>k \<in> set ks. k < length xs"
  shows "\<exists>evs. trace (fold (visit env a) ks w) = trace w @ evs \<and>
           invoked evs = map (\<lambda>k. xs ! k) ks \<and>
           set (observed evs) \<subseteq> {storeRef w} \<and>
           registry (fold (visit env a) ks w) = replay evs (registry w) \<and>
           same_cells w (fold (visit env a) ks w) \<and>
           pass_inv a xs (fold (visit env a) ks w)"
  using assms
proof (induction ks arbitrary: w)
  case Nil
  then show ?case by (simp add: replay_def same_cells_def)
next
  case (Cons k ks)
  have k: "k < length xs" using Cons.prems(2) by simp
  have pre: "prefix xs (arrays w a)" using Cons.prems(1) by (simp add: pass_inv_def)
  then have len: "k < length (arrays w a)" using k prefix_length_le by fastforce
  have elt: "arrays w a ! k = xs ! k" using pre k by (auto simp: prefix_def nth_append)
  let ?w = "call env (xs ! k) w"
  have v: "visit env a k w = ?w" using len elt by (simp add: visit_def)
  obtain e1 where e1: "trace ?w = trace w @ e1" "invoked e1 = [xs ! k]"
    "set (observed e1) \<subseteq> {storeRef w}" "registry ?w = replay e1 (registry w)"
    using call_events by blast
  have sc: "same_cells w ?w" by (rule call_same_cells)
  have pi: "pass_inv a xs ?w" using Cons.prems(1) by (rule call_pass_inv)
  have "\<forall>k \<in> set ks. k < length xs" using Cons.prems(2) by simp
  with Cons.IH[OF pi] obtain e2 where e2: "trace (fold (visit env a) ks ?w) = trace ?w @ e2"
    "invoked e2 = map (\<lambda>k. xs ! k) ks" "set (observed e2) \<subseteq> {storeRef ?w}"
    "registry (fold (visit env a) ks ?w) = replay e2 (registry ?w)"
    "same_cells ?w (fold (visit env a) ks ?w)" "pass_inv a xs (fold (visit env a) ks ?w)"
    by blast
  have st: "storeRef ?w = storeRef w" using sc by (simp add: same_cells_def)
  show ?case
    apply (rule exI[of _ "e1 @ e2"])
    using e1 e2 st sc same_cells_trans[OF sc e2(5)]
    by (simp add: v invoked_append observed_append replay_append)
qed

lemma forEach_events:
  assumes "subscribersRef w < nextArr w"
  shows "\<exists>evs. trace (forEach env w) = trace w @ evs \<and>
           invoked evs = registry w \<and>
           set (observed evs) \<subseteq> {storeRef w} \<and>
           registry (forEach env w) = replay evs (registry w) \<and>
           same_cells w (forEach env w) \<and>
           subscribersRef (forEach env w) < nextArr (forEach env w)"
proof -
  let ?a = "subscribersRef w"
  let ?xs = "arrays w ?a"
  have pi: "pass_inv ?a ?xs w" using assms by (simp add: pass_inv_def)
  have "\<forall>k \<in> set [0..<length ?xs]. k < length ?xs" by simp
  from visits_events[OF pi this, of env]
  obtain evs where e: "trace (fold (visit env ?a) [0..<length ?xs] w) = trace w @ evs"
    "invoked evs = map (\<lambda>k. ?xs ! k) [0..<length ?xs]"
    "set (observed evs) \<subseteq> {storeRef w}"
    "registry (fold (visit env ?a) [0..<length ?xs] w) = replay evs (registry w)"
    "same_cells w (fold (visit env ?a) [0..<length ?xs] w)"
    "pass_inv ?a ?xs (fold (visit env ?a) [0..<length ?xs] w)"
    by blast
  have m: "map (\<lambda>k. ?xs ! k) [0..<length ?xs] = ?xs" by (rule map_nth)
  show ?thesis
    apply (rule exI[of _ evs])
    using e m by (simp add: forEach_def Let_def registry_def pass_inv_def)
qed

subsection \<open>The provider's render and commit\<close>

lemma useSmartContext_pub_inv:
  "pub_inv w \<or> unmounted w \<Longrightarrow> pub_inv (snd (useSmartContext state setters w))"
  by (auto simp: pub_inv_def unmounted_def useSmartContext_def split: option.splits)

lemma useSmartContext_storeRef: "storeRef (snd (useSmartContext state setters w)) = state"
  by (simp add: useSmartContext_def)

lemma useSmartContext_registry:
  "hooksInit w \<Longrightarrow> registry (snd (useSmartContext state setters w)) = registry w"
  by (simp add: useSmartContext_def registry_def)

lemma useSmartContext_trace: "trace (snd (useSmartContext state setters w)) = trace w"
  by (simp add: useSmartContext_def)

lemma useSmartContext_prev:
  "hooksInit w \<Longrightarrow> prevStateRef (snd (useSmartContext state setters w)) = prevStateRef w"
  by (simp add: useSmartContext_def)

lemma commit_notifies:
  assumes "pub_inv w" and "prevStateRef w \<noteq> Prev state"
  shows "\<exists>evs. trace (commit env state w) = trace w @ evs \<and>
           invoked evs = registry w \<and>
           set (observed evs) \<subseteq> {storeRef w} \<and>
           registry (commit env state w) = replay evs (registry w) \<and>
           storeRef (commit env state w) = storeRef w \<and>
           prevStateRef (commit env state w) = Prev state \<and>
           pub_inv (commit env state w)"
proof -
  have a: "subscribersRef w < nextArr w" using assms(1) by (simp add: pub_inv_def)
  have d: "effectDeps w \<noteq> Some state" using assms by (auto simp: pub_inv_def)
  obtain evs where e: "trace (forEach env w) = trace w @ evs" "invoked evs = registry w"
    "set (observed evs) \<subseteq> {storeRef w}" "registry (forEach env w) = replay evs (registry w)"
    "same_cells w (forEach env w)" "subscribersRef (forEach env w) < nextArr (forEach env w)"
    using forEach_events[OF a] by blast
  have c: "commit env state w = (forEach env w)\<lparr>prevStateRef := Prev state, effectDeps := Some state\<rparr>"
    using d assms(2) by (simp add: commit_def layoutEffect_def)
  show ?thesis
    apply (rule exI[of _ evs])
    using e assms(1) by (simp add: c registry_def same_cells_def pub_inv_def)
qed

lemma commit_silent:
  assumes "prevStateRef w = Prev state"
  shows "commit env state w = w\<lparr>effectDeps := Some state\<rparr>"
  using assms by (simp add: commit_def layoutEffect_def)

lemma commit_pub_inv: "pub_inv w \<Longrightarrow> pub_inv (commit env state w)"
proof (cases "prevStateRef w = Prev state")
  case True
  assume "pub_inv w"
  then show ?thesis using True by (simp add: commit_silent pub_inv_def)
next
  case False
  assume "pub_inv w"
  then show ?thesis using commit_notifies[OF _ False] by blast
qed

lemma commit_same_prefix:
  "pub_inv w \<Longrightarrow> hooksInit (commit env state w) \<and> valueMemo (commit env state w) = valueMemo w \<and>
     objs (commit env state w) = objs w \<and> nextObj (commit env state w) = nextObj w \<and>
     storeRef (commit env state w) = storeRef w"
proof (cases "effectDeps w = Some state \<or> prevStateRef w = Prev state")
  case True
  assume "pub_inv w"
  then show ?thesis using True by (auto simp: commit_def layoutEffect_def pub_inv_def)
next
  case False
  assume p: "pub_inv w"
  then have a: "subscribersRef w < nextArr w" by (simp add: pub_inv_def)
  have "same_cells w (forEach env w)" using forEach_events[OF a] by blast
  then show ?thesis using False p by (simp add: commit_def layoutEffect_def same_cells_def pub_inv_def)
qed

lemma rerender_notifies:
  assumes "pub_inv w" and "prevStateRef w \<noteq> Prev state"
  shows "\<exists>evs. trace (rerender env state setters w) = trace w @ evs \<and>
           invoked evs = registry w \<and>
           set (observed evs) \<subseteq> {state} \<and>
           registry (rerender env state setters w) = replay evs (registry w) \<and>
           storeRef (rerender env state setters w) = state \<and>
           prevStateRef (rerender env state setters w) = Prev state \<and>
           pub_inv (rerender env state setters w)"
proof -
  let ?w1 = "snd (useSmartContext state setters w)"
  have h: "hooksInit w" using assms(1) by (simp add: pub_inv_def)
  have p1: "pub_inv ?w1" using assms(1) by (simp add: useSmartContext_pub_inv)
  have pr: "prevStateRef ?w1 \<noteq> Prev state" using h assms(2) by (simp add: useSmartContext_prev)
  have rg: "registry ?w1 = registry w" using h by (rule useSmartContext_registry)
  have tr: "trace ?w1 = trace w" by (rule useSmartContext_trace)
  have st: "storeRef ?w1 = state" by (rule useSmartContext_storeRef)
  from commit_notifies[OF p1 pr, of env] show ?thesis
    unfolding rerender_def rg tr st by blast
qed

lemma rerender_silent:
  assumes "pub_inv w" and "prevStateRef w = Prev state"
  shows "trace (rerender env state setters w) = trace w \<and>
         registry (rerender env state setters w) = registry w"
proof -
  let ?w1 = "snd (useSmartContext state setters w)"
  have h: "hooksInit w" using assms(1) by (simp add: pub_inv_def)
  have pr: "prevStateRef ?w1 = Prev state" using h assms(2) by (simp add: useSmartContext_prev)
  have rg: "registry ?w1 = registry w" using h by (rule useSmartContext_registry)
  have tr: "trace ?w1 = trace w" by (rule useSmartContext_trace)
  show ?thesis using rg tr by (simp add: rerender_def commit_silent[OF pr] registry_def)
qed

lemma rerender_storeRef:
  assumes "pub_inv w"
  shows "storeRef (rerender env state setters w) = state"
proof -
  let ?w1 = "snd (useSmartContext state setters w)"
  have p1: "pub_inv ?w1" using assms by (simp add: useSmartContext_pub_inv)
  show ?thesis using commit_same_prefix[OF p1] by (simp add: rerender_def useSmartContext_storeRef)
qed

subsection \<open>Registration and removal outside a pass\<close>









subsection \<open>The published value over the provider's lifetime\<close>

lemma useSmartContext_again:
  "hooksInit w \<Longrightarrow> useSmartContext state setters w = (JObj (valueMemo w), w\<lparr>storeRef := state\<rparr>)"
  by (simp add: useSmartContext_def)

lemma renders_mounted:
  assumes "pub_inv w" and "renders env us w = (vs, w')"
  shows "vs = replicate (length us) (JObj (valueMemo w)) \<and> valueMemo w' = valueMemo w \<and>
         objs w' = objs w \<and> nextObj w' = nextObj w \<and>
         storeRef w' = (if us = [] then storeRef w else fst (last us))"
  using assms
proof (induction us arbitrary: w vs w')
  case Nil
  then show ?case by simp
next
  case (Cons u us)
  obtain state setters where u: "u = (state, setters)" by (cases u)
  let ?w1 = "w\<lparr>storeRef := state\<rparr>"
  let ?w2 = "commit env state ?w1"
  have h: "hooksInit w" using Cons.prems(1) by (simp add: pub_inv_def)
  have p1: "pub_inv ?w1" using Cons.prems(1) by (simp add: pub_inv_def split: option.splits)
  have p2: "pub_inv ?w2" using p1 by (rule commit_pub_inv)
  have c: "valueMemo ?w2 = valueMemo w \<and> objs ?w2 = objs w \<and> nextObj ?w2 = nextObj w \<and>
           storeRef ?w2 = state"
    using commit_same_prefix[OF p1, of env state] by simp
  obtain vs2 w2 where r: "renders env us ?w2 = (vs2, w2)" by (cases "renders env us ?w2")
  have eq: "vs = JObj (valueMemo w) # vs2" "w' = w2"
    using Cons.prems(2) r h by (simp_all add: u useSmartContext_again)
  from Cons.IH[OF p2 r] show ?case using c eq by (simp add: u)
qed

subsection \<open>The listener of a consumer\<close>

lemma call_checkForUpdates:
  "call checkForUpdates f w =
     w\<lparr>trace := trace w @ [Invoked f, Observed f (storeRef w)],
       client := (client w)(f := checkForUpdates_body (storeRef w) (client w f))\<rparr>"
  by (simp add: call_def checkForUpdates_def getState_def)

lemma visits_checkForUpdates:
  assumes "pass_inv a xs w" and "\<forall>k \<in> set ks. k < length xs"
  shows "client (fold (visit checkForUpdates a) ks w) =
           check_all (storeRef w) (map (\<lambda>k. xs ! k) ks) (client w)"
  using assms
proof (induction ks arbitrary: w)
  case Nil
  then show ?case by (simp add: check_all_def)
next
  case (Cons k ks)
  have k: "k < length xs" using Cons.prems(2) by simp
  have pre: "prefix xs (arrays w a)" using Cons.prems(1) by (simp add: pass_inv_def)
  then have len: "k < length (arrays w a)" using k prefix_length_le by fastforce
  have elt: "arrays w a ! k = xs ! k" using pre k by (auto simp: prefix_def nth_append)
  let ?w = "call checkForUpdates (xs ! k) w"
  have v: "visit checkForUpdates a k w = ?w" using len elt by (simp add: visit_def)
  have pi: "pass_inv a xs ?w" using Cons.prems(1) by (rule call_pass_inv)
  have st: "storeRef ?w = storeRef w" by (simp add: call_checkForUpdates)
  have cl: "client ?w = (client w)(xs ! k := checkForUpdates_body (storeRef w) (client w (xs ! k)))"
    by (simp add: call_checkForUpdates)
  have "\<forall>k \<in> set ks. k < length xs" using Cons.prems(2) by simp
  then have "client (fold (visit checkForUpdates a) ks ?w) =
               check_all (storeRef ?w) (map (\<lambda>k. xs ! k) ks) (client ?w)"
    by (rule Cons.IH[OF pi])
  then have "client (fold (visit checkForUpdates a) ks ?w) =
               check_all (storeRef w) (map (\<lambda>k. xs ! k) ks)
                 ((client w)(xs ! k := checkForUpdates_body (storeRef w) (client w (xs ! k))))"
    unfolding st cl .
  moreover have "fold (visit checkForUpdates a) (k # ks) w = fold (visit checkForUpdates a) ks ?w"
    by (simp add: v)
  moreover have "check_all (storeRef w) (map (\<lambda>k. xs ! k) (k # ks)) (client w) =
                 check_all (storeRef w) (map (\<lambda>k. xs ! k) ks)
                   ((client w)(xs ! k := checkForUpdates_body (storeRef w) (client w (xs ! k))))"
    by (simp add: check_all_def)
  ultimately show ?case by simp
qed

lemma forEach_checkForUpdates:
  assumes "subscribersRef w < nextArr w"
  shows "client (forEach checkForUpdates w) = check_all (storeRef w) (registry w) (client w)"
proof -
  let ?a = "subscribersRef w"
  let ?xs = "arrays w ?a"
  have pi: "pass_inv ?a ?xs w" using assms by (simp add: pass_inv_def)
  have "\<forall>k \<in> set [0..<length ?xs]. k < length ?xs" by simp
  from visits_checkForUpdates[OF pi this]
  have "client (fold (visit checkForUpdates ?a) [0..<length ?xs] w) =
          check_all (storeRef w) (map (\<lambda>k. ?xs ! k) [0..<length ?xs]) (client w)" .
  then show ?thesis by (simp add: forEach_def Let_def registry_def map_nth)
qed


lemma rerender_checkForUpdates:
  assumes "pub_inv w" and "prevStateRef w \<noteq> Prev state"
  shows "client (rerender checkForUpdates state setters w) = check_all state (registry w) (client w)"
proof -
  let ?w1 = "w\<lparr>storeRef := state\<rparr>"
  have h: "hooksInit w" using assms(1) by (simp add: pub_inv_def)
  have a: "subscribersRef ?w1 < nextArr ?w1" using assms(1) by (simp add: pub_inv_def)
  have d: "effectDeps w \<noteq> Some state" using assms by (auto simp: pub_inv_def)
  have "rerender checkForUpdates state setters w =
          (forEach checkForUpdates ?w1)\<lparr>prevStateRef := Prev state, effectDeps := Some state\<rparr>"
    using h d assms(2) by (simp add: rerender_def useSmartContext_again commit_def layoutEffect_def)
  then show ?thesis using forEach_checkForUpdates[OF a] by (simp add: registry_def)
qed

subsection \<open>The check of the store\<close>

lemma getState_absent_iff: "getState_absent w store \<longleftrightarrow> call_getState w store = Inl TypeError"
  by (simp add: getState_absent_def call_getState_def split: jsval.splits option.splits getter.splits)

lemma call_getState_cases:
  "call_getState w store = Inl TypeError \<or> (\<exists>v. call_getState w store = Inr v)"
  by (simp add: call_getState_def split: jsval.splits option.splits getter.splits)

lemma call_getState_published:
  "objs w r = Some (published setters) \<Longrightarrow> call_getState w (JObj r) = Inr (storeRef w)"
  by (simp add: call_getState_def published_def getState_def)

lemma useContextSelector_ok:
  "call_getState w store = Inr v \<Longrightarrow> truthy v \<Longrightarrow>
   useContextSelector store selector w sb =
     Inr (selector v, sb\<lparr>selectorRef := selector, selectedStateRef := selector v\<rparr>)"
  by (simp add: useContextSelector_def)

lemma useContextSetters_ok:
  "call_getState w store = Inr v \<Longrightarrow> truthy v \<Longrightarrow> \<exists>r. useContextSetters store cell w = Inr r"
  by (simp add: useContextSetters_def split: option.splits)

subsection \<open>The concrete providers\<close>

lemma provider_cells:
  "hooksInit (provider s m) \<and> prevStateRef (provider s m) = Prev s \<and> storeRef (provider s m) = s \<and>
   subscribersRef (provider s m) = 0 \<and> effectDeps (provider s m) = Some s \<and>
   valueMemo (provider s m) = 0 \<and> nextArr (provider s m) = 1 \<and> arrays (provider s m) 0 = [] \<and>
   objs (provider s m) 0 = Some (published m) \<and> nextObj (provider s m) = 1 \<and>
   trace (provider s m) = []"
  by (simp add: provider_def rerender_def commit_def layoutEffect_def forEach_def
      useSmartContext_def empty_world_def)

lemma two_listeners_cells:
  "pub_inv two_listeners \<and> prevStateRef two_listeners = Prev (JObj 10) \<and>
   registry two_listeners = [1, 2] \<and> trace two_listeners = [] \<and>
   subscribersRef two_listeners = 0 \<and> nextArr two_listeners = 1"
  by (simp add: two_listeners_def pub_inv_def registry_def subscribe_def provider_cells)

lemma consumer0_cells:
  "pub_inv consumer0 \<and> prevStateRef consumer0 = Prev (JObj 10) \<and> registry consumer0 = [0] \<and>
   selectorRef (client consumer0 0) = selectCount \<and>
   selectedStateRef (client consumer0 0) = JNum 0 \<and> forceRenders (client consumer0 0) = 0"
  by (simp add: consumer0_def provider0_def mountSelector_def renderSelector_def call_subscribe_def
      useContextSelector_def call_getState_def
      published_def getState_def rerender_def commit_def layoutEffect_def forEach_def
      useSmartContext_def empty_world_def subscribe_def pub_inv_def registry_def no_sub_def
      selectCount_def)






section \<open>The claims\<close>




text \<open>
  C2. The render has stored the new state in \<open>storeRef\<close> before the commit runs, so
  \<open>getState()\<close> returns it from then on, and every value that a listener reads with
  \<open>getState()\<close> during the commit is the new state.
\<close>

theorem listeners_observe_new_state:
  assumes "pub_inv w"
  shows "getState (snd (useSmartContext state setters w)) = state \<and>
         getState (rerender env state setters w) = state \<and>
         (\<exists>vs. observed (trace (rerender env state setters w)) = observed (trace w) @ vs \<and>
               set vs \<subseteq> {state})"
proof -
  have a: "getState (snd (useSmartContext state setters w)) = state"
    by (simp add: getState_def useSmartContext_storeRef)
  have b: "getState (rerender env state setters w) = state"
    using rerender_storeRef[OF assms] by (simp add: getState_def)
  have c: "\<exists>vs. observed (trace (rerender env state setters w)) = observed (trace w) @ vs \<and>
                set vs \<subseteq> {state}"
  proof (cases "prevStateRef w = Prev state")
    case True
    then show ?thesis using rerender_silent[OF assms] by simp
  next
    case False
    obtain evs where "trace (rerender env state setters w) = trace w @ evs"
      "set (observed evs) \<subseteq> {state}"
      using rerender_notifies[OF assms False] by blast
    then show ?thesis by (simp add: observed_append)
  qed
  show ?thesis using a b c by simp
qed

theorem listeners_observe_new_state_witness:
  "pub_inv two_listeners \<and>
   getState (rerender reader (JObj 11) Map.empty two_listeners) = JObj 11 \<and>
   observed (trace (rerender reader (JObj 11) Map.empty two_listeners)) = [JObj 11, JObj 11]"
proof -
  have h: "pub_inv two_listeners" by (simp add: two_listeners_cells)
  have e: "observed (trace (rerender reader (JObj 11) Map.empty two_listeners)) = [JObj 11, JObj 11]"
    by (simp add: two_listeners_def provider_def rerender_def commit_def layoutEffect_def
        forEach_def useSmartContext_def empty_world_def subscribe_def visit_def call_def
        reader_def getState_def)
  show ?thesis
    using h e listeners_observe_new_state[OF h, of "JObj 11" Map.empty reader] by simp
qed

text \<open>
  C3. From the first render on, every call of the hook returns the object that the first
  call allocated; that object is the only one the provider ever allocates, and it stays
  as the first call built it. Called on it after any number of updates, \<open>getState()\<close>
  returns the state of the last render.
\<close>

theorem published_value_stable:
  assumes "unmounted w" and "renders env ((state0, setters0) # us) w = (vs, w')"
  shows "vs = replicate (Suc (length us)) (JObj (nextObj w)) \<and>
         objs w' = (objs w)(nextObj w \<mapsto> published setters0) \<and>
         nextObj w' = nextObj w + 1 \<and>
         call_getState w' (JObj (nextObj w)) = Inr (fst (last ((state0, setters0) # us)))"
proof -
  let ?w1 = "snd (useSmartContext state0 setters0 w)"
  let ?w2 = "commit env state0 ?w1"
  have f: "fst (useSmartContext state0 setters0 w) = JObj (nextObj w)"
    using assms(1) by (simp add: unmounted_def useSmartContext_def)
  have o1: "valueMemo ?w1 = nextObj w \<and> objs ?w1 = (objs w)(nextObj w \<mapsto> published setters0) \<and>
            nextObj ?w1 = nextObj w + 1"
    using assms(1) by (simp add: unmounted_def useSmartContext_def)
  have p1: "pub_inv ?w1" using assms(1) by (simp add: useSmartContext_pub_inv)
  have p2: "pub_inv ?w2" using p1 by (rule commit_pub_inv)
  have c: "valueMemo ?w2 = nextObj w \<and> objs ?w2 = (objs w)(nextObj w \<mapsto> published setters0) \<and>
           nextObj ?w2 = nextObj w + 1 \<and> storeRef ?w2 = state0"
    using commit_same_prefix[OF p1, of env state0] o1 by (simp add: useSmartContext_storeRef)
  obtain vs2 w2 where r: "renders env us ?w2 = (vs2, w2)" by (cases "renders env us ?w2")
  have eq: "vs = JObj (nextObj w) # vs2" "w' = w2"
    using assms(2) r f by (simp_all add: split_beta)
  from renders_mounted[OF p2 r]
  have m: "vs2 = replicate (length us) (JObj (nextObj w))" "objs w2 = (objs w)(nextObj w \<mapsto> published setters0)"
    "nextObj w2 = nextObj w + 1" "storeRef w2 = (if us = [] then state0 else fst (last us))"
    using c by simp_all
  have g: "call_getState w2 (JObj (nextObj w)) = Inr (storeRef w2)"
    using m(2) by (simp add: call_getState_def published_def getState_def)
  show ?thesis using eq m g by simp
qed

theorem published_value_stable_witness:
  "unmounted (empty_world ()) \<and>
   fst (renders reader [(JObj 10, clash_setters), (JObj 11, Map.empty)] (empty_world ())) =
     [JObj 0, JObj 0] \<and>
   call_getState (snd (renders reader [(JObj 10, clash_setters), (JObj 11, Map.empty)] (empty_world ())))
     (JObj 0) = Inr (JObj 11)"
proof -
  have h: "unmounted (empty_world ())" by (simp add: unmounted_def empty_world_def)
  have n: "nextObj (empty_world ()) = 0" by (simp add: empty_world_def)
  show ?thesis
    using h n published_value_stable[OF h surjective_pairing, of reader "JObj 10" clash_setters
        "[(JObj 11, Map.empty)]"]
    by simp
qed









text \<open>
  C7, as the code has it. When the value that \<open>checkForUpdates\<close> computes is not the one
  in \<open>selectedStateRef\<close>, the listener dispatches \<open>forceRender\<close> once and writes neither
  \<open>selectedStateRef\<close> nor \<open>selectorRef\<close>: a second call before the consumer has run
  again compares with the same stored value and dispatches again. The stored value is
  written where the consumer runs: that run stores the selection of the current state.
\<close>

theorem checkForUpdates_keeps_selected:
  assumes "selectorRef (client w i) (getState w) \<noteq> selectedStateRef (client w i)"
  shows "forceRenders (client (call checkForUpdates i w) i) = forceRenders (client w i) + 1 \<and>
         selectedStateRef (client (call checkForUpdates i w) i) = selectedStateRef (client w i) \<and>
         selectorRef (client (call checkForUpdates i w) i) = selectorRef (client w i) \<and>
         forceRenders (client (call checkForUpdates i (call checkForUpdates i w)) i) =
           forceRenders (client w i) + 2 \<and>
         (\<forall>r setters selector.
            objs w r = Some (published setters) \<and> truthy (getState w) \<longrightarrow>
            useContextSelector (JObj r) selector (call checkForUpdates i w)
              (client (call checkForUpdates i w) i) =
              Inr (selector (getState w),
                   (client (call checkForUpdates i w) i)
                     \<lparr>selectorRef := selector, selectedStateRef := selector (getState w)\<rparr>))"
proof -
  let ?w = "call checkForUpdates i w"
  have f: "client ?w i = forceRender (client w i)"
    using assms by (simp add: call_checkForUpdates checkForUpdates_body_def getState_def)
  have s: "storeRef ?w = storeRef w" "objs ?w = objs w"
    by (simp_all add: call_checkForUpdates)
  have g: "client (call checkForUpdates i ?w) i = forceRender (forceRender (client w i))"
    using assms
    by (simp add: call_checkForUpdates checkForUpdates_body_def getState_def forceRender_def)
  have r: "useContextSelector (JObj r) selector ?w (client ?w i) =
             Inr (selector (getState w),
                  (client ?w i)\<lparr>selectorRef := selector, selectedStateRef := selector (getState w)\<rparr>)"
    if "objs w r = Some (published setters) \<and> truthy (getState w)" for r setters selector
  proof -
    have "call_getState ?w (JObj r) = Inr (storeRef ?w)"
      using that s(2) call_getState_published[of ?w r setters] by simp
    then show ?thesis using that s(1) useContextSelector_ok[of ?w "JObj r" "storeRef w"]
      by (simp add: getState_def)
  qed
  show ?thesis using f g r by (simp add: forceRender_def)
qed

theorem checkForUpdates_keeps_selected_witness:
  "selectorRef (client (snd (useSmartContext (JObj 11) Map.empty consumer0)) 0)
     (getState (snd (useSmartContext (JObj 11) Map.empty consumer0))) \<noteq>
     selectedStateRef (client (snd (useSmartContext (JObj 11) Map.empty consumer0)) 0) \<and>
   forceRenders (client (call checkForUpdates 0 (snd (useSmartContext (JObj 11) Map.empty consumer0))) 0) = 1 \<and>
   selectedStateRef
     (client (call checkForUpdates 0 (snd (useSmartContext (JObj 11) Map.empty consumer0))) 0) = JNum 0"
proof -
  let ?w = "snd (useSmartContext (JObj 11) Map.empty consumer0)"
  have i: "hooksInit consumer0" using consumer0_cells by (simp add: pub_inv_def)
  have c: "client ?w = client consumer0" "getState ?w = JObj 11"
    using i by (simp_all add: useSmartContext_def getState_def)
  have h: "selectorRef (client ?w 0) (getState ?w) \<noteq> selectedStateRef (client ?w 0)"
    by (simp add: c consumer0_cells selectCount_def)
  show ?thesis
    using h c checkForUpdates_keeps_selected[OF h] by (simp add: consumer0_cells)
qed

text \<open>
  C7 as stated fails: the count goes from 0 to 1, the listener of consumer 0 dispatches
  \<open>forceRender\<close>, and \<open>selectedStateRef\<close> still holds 0 after the pass, while the
  selector gives 1 on the current state.
\<close>

theorem checkForUpdates_update_counterexample:
  "forceRenders (client (rerender checkForUpdates (JObj 11) Map.empty consumer0) 0) = 1 \<and>
   selectorRef (client (rerender checkForUpdates (JObj 11) Map.empty consumer0) 0)
     (getState (rerender checkForUpdates (JObj 11) Map.empty consumer0)) = JNum 1 \<and>
   selectedStateRef (client (rerender checkForUpdates (JObj 11) Map.empty consumer0) 0) = JNum 0"
  by (simp add: consumer0_def provider0_def mountSelector_def renderSelector_def call_subscribe_def
      useContextSelector_def call_getState_def
      published_def getState_def rerender_def commit_def layoutEffect_def forEach_def
      useSmartContext_def empty_world_def subscribe_def visit_def call_def checkForUpdates_def
      checkForUpdates_body_def forceRender_def no_sub_def selectCount_def)

text \<open>
  C8. Both hooks raise whenever the value read from the context has no \<open>getState\<close> (the
  call of the absent property raises a TypeError) or has one that returns a falsy value
  (the hook throws its own error), and in no other case.
\<close>

theorem store_check:
  "(getState_absent w store \<longrightarrow>
      useContextSelector store selector w sb = Inl TypeError \<and>
      useContextSetters store cell w = Inl TypeError) \<and>
   (\<forall>v. call_getState w store = Inr v \<and> \<not> truthy v \<longrightarrow>
      useContextSelector store selector w sb = Inl UsageError \<and>
      useContextSetters store cell w = Inl UsageError) \<and>
   (\<not> getState_absent w store \<and> (\<forall>v. call_getState w store = Inr v \<longrightarrow> truthy v) \<longrightarrow>
      (\<exists>r. useContextSelector store selector w sb = Inr r) \<and>
      (\<exists>r. useContextSetters store cell w = Inr r))"
proof (intro conjI impI allI)
  assume "getState_absent w store"
  then have a: "call_getState w store = Inl TypeError" by (simp add: getState_absent_iff)
  show "useContextSelector store selector w sb = Inl TypeError"
    by (simp add: useContextSelector_def a)
  show "useContextSetters store cell w = Inl TypeError"
    by (simp add: useContextSetters_def a)
next
  fix v assume "call_getState w store = Inr v \<and> \<not> truthy v"
  then show "useContextSelector store selector w sb = Inl UsageError"
    by (simp add: useContextSelector_def)
next
  fix v assume "call_getState w store = Inr v \<and> \<not> truthy v"
  then show "useContextSetters store cell w = Inl UsageError"
    by (simp add: useContextSetters_def)
next
  assume h: "\<not> getState_absent w store \<and> (\<forall>v. call_getState w store = Inr v \<longrightarrow> truthy v)"
  then obtain v where v: "call_getState w store = Inr v" "truthy v"
    using call_getState_cases[of w store] by (auto simp: getState_absent_iff)
  show "\<exists>r. useContextSelector store selector w sb = Inr r"
    using useContextSelector_ok[OF v] by simp
next
  assume h: "\<not> getState_absent w store \<and> (\<forall>v. call_getState w store = Inr v \<longrightarrow> truthy v)"
  then obtain v where v: "call_getState w store = Inr v" "truthy v"
    using call_getState_cases[of w store] by (auto simp: getState_absent_iff)
  show "\<exists>r. useContextSetters store cell w = Inr r"
    using v by (rule useContextSetters_ok)
qed

theorem store_check_witness:
  "getState_absent (provider (JObj 10) Map.empty) JUndefined \<and>
   useContextSelector JUndefined selectCount (provider (JObj 10) Map.empty) no_sub = Inl TypeError \<and>
   useContextSetters JUndefined None (provider (JObj 10) Map.empty) = Inl TypeError \<and>
   call_getState (provider JNull Map.empty) (JObj 0) = Inr JNull \<and> \<not> truthy JNull \<and>
   useContextSelector (JObj 0) selectCount (provider JNull Map.empty) no_sub = Inl UsageError \<and>
   useContextSetters (JObj 0) None (provider JNull Map.empty) = Inl UsageError \<and>
   \<not> getState_absent (provider (JObj 10) Map.empty) (JObj 0) \<and>
   call_getState (provider (JObj 10) Map.empty) (JObj 0) = Inr (JObj 10) \<and> truthy (JObj 10) \<and>
   \<not> isl (useContextSelector (JObj 0) selectCount (provider (JObj 10) Map.empty) no_sub) \<and>
   \<not> isl (useContextSetters (JObj 0) None (provider (JObj 10) Map.empty))"
proof -
  have a: "getState_absent (provider (JObj 10) Map.empty) JUndefined"
    by (simp add: getState_absent_def)
  have b: "call_getState (provider JNull Map.empty) (JObj 0) = Inr JNull" "\<not> truthy JNull"
    by (simp_all add: call_getState_def provider_cells published_def getState_def)
  have c: "\<not> getState_absent (provider (JObj 10) Map.empty) (JObj 0)"
    "call_getState (provider (JObj 10) Map.empty) (JObj 0) = Inr (JObj 10)" "truthy (JObj 10)"
    by (simp_all add: getState_absent_def call_getState_def provider_cells published_def getState_def)
  show ?thesis
    using a b c
      store_check[of "provider (JObj 10) Map.empty" JUndefined selectCount no_sub None]
      store_check[of "provider JNull Map.empty" "JObj 0" selectCount no_sub None]
      store_check[of "provider (JObj 10) Map.empty" "JObj 0" selectCount no_sub None]
    by auto
qed




text \<open>
  C10. When the object in the context is the one that \<open>useSmartContext\<close> built and the
  current state is falsy, both hooks throw the usage error.
\<close>

theorem falsy_state_raises:
  assumes "objs w r = Some (published setters)" and "\<not> truthy (getState w)"
  shows "useContextSelector (JObj r) selector w sb = Inl UsageError \<and>
         useContextSetters (JObj r) cell w = Inl UsageError"
  using assms call_getState_published[OF assms(1)]
  by (simp add: useContextSelector_def useContextSetters_def getState_def)

theorem falsy_state_raises_witness:
  "objs (provider JNull Map.empty) 0 = Some (published Map.empty) \<and>
   \<not> truthy (getState (provider JNull Map.empty)) \<and>
   useContextSelector (JObj 0) selectCount (provider JNull Map.empty) no_sub = Inl UsageError \<and>
   useContextSetters (JObj 0) None (provider JNull Map.empty) = Inl UsageError \<and>
   \<not> truthy (getState (provider (JNum 0) Map.empty)) \<and>
   useContextSelector (JObj 0) selectCount (provider (JNum 0) Map.empty) no_sub = Inl UsageError \<and>
   \<not> truthy (getState (provider (JStr []) Map.empty)) \<and>
   useContextSetters (JObj 0) None (provider (JStr []) Map.empty) = Inl UsageError"
proof -
  have a: "objs (provider JNull Map.empty) 0 = Some (published Map.empty)"
    "\<not> truthy (getState (provider JNull Map.empty))"
    by (simp_all add: provider_cells getState_def)
  have b: "objs (provider (JNum 0) Map.empty) 0 = Some (published Map.empty)"
    "\<not> truthy (getState (provider (JNum 0) Map.empty))"
    by (simp_all add: provider_cells getState_def)
  have c: "objs (provider (JStr []) Map.empty) 0 = Some (published Map.empty)"
    "\<not> truthy (getState (provider (JStr []) Map.empty))"
    by (simp_all add: provider_cells getState_def)
  show ?thesis
    using a b c falsy_state_raises[OF a, of selectCount no_sub None]
      falsy_state_raises[OF b, of selectCount no_sub None]
      falsy_state_raises[OF c, of selectCount no_sub None]
    by simp
qed

end
